theory Spec2Isabelle
  imports Main "HOL-Library.Word"
begin

section \<open>Clipped: clipboard history and native paste (src/main.js)\<close>

text \<open>
  A shallow embedding of the main process of the clipboard manager. A JavaScript string
  is a list of UTF-16 code units, each a 16-bit word; \<open>js\<close> writes one from an ASCII
  literal. The built-in \<open>String.prototype.toLowerCase\<close> is a parameter of the search.
  The Electron clipboard, the store, \<open>globalShortcut\<close> and \<open>child_process.exec\<close> are
  the environment: the store and the clipboard are fields of the state, the outcome of
  a command and of a registration are parameters. A command that \<open>exec\<close> has started is
  taken to end, so that \<open>exec\<close> calls back; \<open>exec\<close> may also throw before it starts one.
\<close>

subsection \<open>Characters and strings\<close>

type_synonym jschar = "16 word"

type_synonym jsstring = "jschar list"

definition js :: "string \<Rightarrow> jsstring" where
  "js s = map of_char s"

definition squote :: jschar where
  "squote = 0x27"

definition bslash :: jschar where
  "bslash = 0x5C"

text \<open>The white space and line terminators that \<open>trim\<close> strips: TAB, LF, VT, FF, CR,
  space, no-break space, the byte order mark and the space separators of Unicode, all
  of them single code units.\<close>

definition isWhiteSpace :: "jschar \<Rightarrow> bool" where
  "isWhiteSpace c =
     (c \<in> {0x09, 0x0A, 0x0B, 0x0C, 0x0D, 0x20, 0xA0, 0x1680, 0x2028, 0x2029, 0x202F,
            0x205F, 0x3000, 0xFEFF}
      \<or> (0x2000 \<le> c \<and> c \<le> 0x200A))"

definition trim :: "jsstring \<Rightarrow> jsstring" where
  "trim s = rev (dropWhile isWhiteSpace (rev (dropWhile isWhiteSpace s)))"

text \<open>\<open>hay.startsWith(needle)\<close> and \<open>hay.includes(needle)\<close>.\<close>

fun startsWith :: "jsstring \<Rightarrow> jsstring \<Rightarrow> bool" where
  "startsWith hay [] = True"
| "startsWith [] (n # ns) = False"
| "startsWith (h # hs) (n # ns) = (h = n \<and> startsWith hs ns)"

fun includes_str :: "jsstring \<Rightarrow> jsstring \<Rightarrow> bool" where
  "includes_str [] needle = (needle = [])"
| "includes_str (h # hs) needle = (startsWith (h # hs) needle \<or> includes_str hs needle)"

subsection \<open>shellEscape\<close>

text \<open>\<open>String(str).replace(/'/g, "'\\''")\<close>: every single quote becomes the four
  characters quote, backslash, quote, quote.\<close>

fun replaceQuotes :: "jsstring \<Rightarrow> jsstring" where
  "replaceQuotes [] = []"
| "replaceQuotes (c # cs) =
     (if c = squote then [squote, bslash, squote, squote] @ replaceQuotes cs
      else c # replaceQuotes cs)"

text \<open>The argument is \<open>None\<close> for \<open>null\<close> and \<open>undefined\<close> (\<open>str == null\<close>).\<close>

fun shellEscape :: "jsstring option \<Rightarrow> jsstring" where
  "shellEscape None = [squote, squote]"
| "shellEscape (Some str) = [squote] @ replaceQuotes str @ [squote]"

text \<open>
  How a POSIX shell reads one word made of single-quoted parts and backslash escapes.
  The flag says whether the reader is inside single quotes. Inside, every character up
  to the next quote is literal. Outside, a quote opens a quoted part, a backslash makes
  the next character literal (a backslash before a newline is a line continuation), and
  any other character is left to the shell to interpret: the reader gives \<open>None\<close>, as it
  does for quotes that are not closed and for a backslash at the end.
\<close>

fun sh_word :: "bool \<Rightarrow> jsstring \<Rightarrow> jsstring option" where
  "sh_word True [] = None"
| "sh_word True (c # cs) =
     (if c = squote then sh_word False cs else map_option ((#) c) (sh_word True cs))"
| "sh_word False [] = Some []"
| "sh_word False (c # cs) =
     (if c = squote then sh_word True cs
      else if c = bslash then
        (case cs of
           [] \<Rightarrow> None
         | d # ds \<Rightarrow>
             if d = 0x0A then sh_word False ds else map_option ((#) d) (sh_word False ds))
      else None)"

subsection \<open>Entries, store, window and state\<close>

datatype entry_type = Text | Image

record entry =
  entry_type :: entry_type
  content :: jsstring
  timestamp :: jsstring
  pinned :: bool
  entry_id :: nat

text \<open>The keys of the electron-store that the history and the hotkey use. The defaults
  are those of \<open>new Store({defaults: ...})\<close>.\<close>

record store =
  st_clipboardHistory :: "entry list"
  st_maxItems :: int
  st_hotkey :: jsstring

definition store_defaults :: store where
  "store_defaults =
     \<lparr>st_clipboardHistory = [], st_maxItems = 50, st_hotkey = js ''Super+V''\<rparr>"

record window =
  destroyed :: bool
  visible :: bool

text \<open>The system clipboard as Electron shows it: a text channel and an image channel,
  the image standing for its data URL (\<open>[]\<close> when \<open>isEmpty()\<close>). \<open>writeText\<close> and
  \<open>writeImage\<close> replace the whole clipboard.\<close>

record clipboard =
  clip_text :: jsstring
  clip_image :: jsstring

definition writeText :: "jsstring \<Rightarrow> clipboard" where
  "writeText t = \<lparr>clip_text = t, clip_image = []\<rparr>"

definition writeImage :: "jsstring \<Rightarrow> clipboard" where
  "writeImage dataURL = \<lparr>clip_text = [], clip_image = dataURL\<rparr>"

text \<open>What the process does to the outside, in the order it does it: a write of the
  history or of the hotkey to the store, and a \<open>clipboard-updated\<close> message to the
  renderer.\<close>

datatype event =
    StoreSetHistory "entry list"
  | StoreSetHotkey jsstring
  | ClipboardUpdated "entry list"

record manager =
  mainWindow :: "window option"
  clipboardHistory :: "entry list"
  lastClipboardContent :: jsstring
  lastImageDataURL :: jsstring
  lastActiveWindowId :: "jsstring option"
  registered :: "jsstring list"
  the_store :: store
  os_clipboard :: clipboard
  events :: "event list"

subsection \<open>History\<close>

text \<open>\<open>xs.slice(0, end)\<close> for an integer \<open>end\<close>: a negative end counts from the
  back.\<close>

definition slice0 :: "int \<Rightarrow> 'a list \<Rightarrow> 'a list" where
  "slice0 end xs =
     (let len = int (length xs);
          k = (if end < 0 then max (len + end) 0 else min end len)
      in take (nat k) xs)"

definition saveHistory :: "manager \<Rightarrow> manager" where
  "saveHistory s =
     s\<lparr>the_store := (the_store s)\<lparr>st_clipboardHistory := clipboardHistory s\<rparr>,
       events := events s @ [StoreSetHistory (clipboardHistory s)]\<rparr>"

text \<open>\<open>if (this.mainWindow && !this.mainWindow.isDestroyed()) webContents.send(...)\<close>\<close>

definition notifyRenderer :: "manager \<Rightarrow> manager" where
  "notifyRenderer s =
     (case mainWindow s of
        None \<Rightarrow> s
      | Some w \<Rightarrow>
          if \<not> destroyed w then s\<lparr>events := events s @ [ClipboardUpdated (clipboardHistory s)]\<rparr>
          else s)"

text \<open>The three list steps of \<open>addToHistory\<close>: filter out the same content, unshift,
  slice to \<open>maxItems\<close>.\<close>

definition removeExisting :: "entry \<Rightarrow> entry list \<Rightarrow> entry list" where
  "removeExisting item h = filter (\<lambda>existingItem. content existingItem \<noteq> content item) h"

definition unshift :: "'a \<Rightarrow> 'a list \<Rightarrow> 'a list" where
  "unshift item h = item # h"

definition addToHistory :: "entry \<Rightarrow> manager \<Rightarrow> manager" where
  "addToHistory item s =
     (let s1 = s\<lparr>clipboardHistory := removeExisting item (clipboardHistory s)\<rparr>;
          s2 = s1\<lparr>clipboardHistory := unshift item (clipboardHistory s1)\<rparr>;
          maxItems = st_maxItems (the_store s2);
          s3 = s2\<lparr>clipboardHistory := slice0 maxItems (clipboardHistory s2)\<rparr>
      in notifyRenderer (saveHistory s3))"

text \<open>\<open>arr[index]\<close> for an integer index: \<open>undefined\<close> out of range.\<close>

definition at_index :: "'a list \<Rightarrow> int \<Rightarrow> 'a option" where
  "at_index xs index =
     (if 0 \<le> index \<and> index < int (length xs) then Some (xs ! nat index) else None)"

text \<open>\<open>arr.splice(index, 1)\<close> at an index in range.\<close>

definition splice1 :: "nat \<Rightarrow> 'a list \<Rightarrow> 'a list" where
  "splice1 i xs = take i xs @ drop (Suc i) xs"

text \<open>The handlers \<open>toggle-pin\<close>, \<open>delete-item\<close>, \<open>clear-history\<close> and
  \<open>search-history\<close>. An entry is an object, so \<open>if (this.clipboardHistory[index])\<close>
  asks whether the index is in range.\<close>

definition toggle_pin :: "int \<Rightarrow> manager \<Rightarrow> bool \<times> manager" where
  "toggle_pin index s =
     (case at_index (clipboardHistory s) index of
        Some e \<Rightarrow>
          (True,
           saveHistory
             (s\<lparr>clipboardHistory := (clipboardHistory s)[nat index := e\<lparr>pinned := \<not> pinned e\<rparr>]\<rparr>))
      | None \<Rightarrow> (False, s))"

definition delete_item :: "int \<Rightarrow> manager \<Rightarrow> bool \<times> manager" where
  "delete_item index s =
     (case at_index (clipboardHistory s) index of
        Some e \<Rightarrow>
          (True, saveHistory (s\<lparr>clipboardHistory := splice1 (nat index) (clipboardHistory s)\<rparr>))
      | None \<Rightarrow> (False, s))"

definition clearHistory :: "manager \<Rightarrow> manager" where
  "clearHistory s = notifyRenderer (saveHistory (s\<lparr>clipboardHistory := []\<rparr>))"

definition clear_history :: "manager \<Rightarrow> bool \<times> manager" where
  "clear_history s = (True, clearHistory s)"

text \<open>The first argument is \<open>String.prototype.toLowerCase\<close>, which both sides go
  through.\<close>

definition search_history ::
  "(jsstring \<Rightarrow> jsstring) \<Rightarrow> jsstring \<Rightarrow> manager \<Rightarrow> entry list" where
  "search_history toLowerCase query s =
     (if query = [] then clipboardHistory s
      else filter (\<lambda>item. includes_str (toLowerCase (content item)) (toLowerCase query))
             (clipboardHistory s))"

subsection \<open>The clipboard watcher\<close>

text \<open>One reading of the clock: \<open>new Date().toISOString()\<close> and \<open>Date.now()\<close>.\<close>

record clock =
  toISOString :: jsstring
  now :: nat

definition watch_text :: "clock \<Rightarrow> manager \<Rightarrow> manager" where
  "watch_text clk s =
     (let currentContent = clip_text (os_clipboard s)
      in if currentContent \<noteq> [] \<and> currentContent \<noteq> lastClipboardContent s
            \<and> length (trim currentContent) > 0
         then (addToHistory
                 \<lparr>entry_type = Text, content = currentContent, timestamp = toISOString clk,
                  pinned = False, entry_id = now clk\<rparr> s)
              \<lparr>lastClipboardContent := currentContent\<rparr>
         else s)"

definition watch_image :: "clock \<Rightarrow> manager \<Rightarrow> manager" where
  "watch_image clk s =
     (let imageDataURL = clip_image (os_clipboard s)
      in if imageDataURL \<noteq> [] \<and> imageDataURL \<noteq> lastImageDataURL s
            \<and> length imageDataURL > 100
         then (addToHistory
                 \<lparr>entry_type = Image, content = imageDataURL, timestamp = toISOString clk,
                  pinned = False, entry_id = now clk\<rparr> s)
              \<lparr>lastImageDataURL := imageDataURL\<rparr>
         else s)"

text \<open>One run of the \<open>setInterval\<close> callback of \<open>startClipboardWatcher\<close>: the text
  channel, then the image channel, each with its own reading of the clock.\<close>

definition watcher_tick :: "clock \<Rightarrow> clock \<Rightarrow> manager \<Rightarrow> manager" where
  "watcher_tick clk_text clk_image s = watch_image clk_image (watch_text clk_text s)"

subsection \<open>Paste\<close>

text \<open>
  What \<open>exec(cmd, callback)\<close> does with a command in the world outside. Either it
  throws at once, before any process runs and without calling back (a command with a
  NUL code unit, a command too long for the system): \<open>SyncThrow\<close>. Or the command
  runs and ends, and the callback is called: \<open>Exited status other\<close> gives the exit
  status, and \<open>other\<close> says that \<open>exec\<close> has another reason to report an error (output
  beyond \<open>maxBuffer\<close>, the process killed). The callback's \<open>err\<close> is set exactly when
  the status is not 0 or there is such a reason.
\<close>

datatype exec_outcome = SyncThrow | Exited nat bool

fun reports_error :: "exec_outcome \<Rightarrow> bool" where
  "reports_error SyncThrow = False"
| "reports_error (Exited status other) = (status \<noteq> 0 \<or> other)"

type_synonym 'w exec = "jsstring \<Rightarrow> 'w \<Rightarrow> exec_outcome \<times> 'w"

datatype cb_error = NoCommands | ExecError jsstring nat bool

text \<open>How a call that is given a callback ends: the callback has been called, with the
  given result, or an exception has left the call and the callback has not been
  called.\<close>

datatype ('w, 'r) completion = Called 'r | Uncaught 'w

text \<open>\<open>tryCommandsSequentially(commands, cb)\<close> in continuation-passing style, as in the
  source: the callback gets \<open>Inr True\<close> for \<open>cb(null, true)\<close> and \<open>Inl err\<close> for
  \<open>cb(err)\<close>. Nothing catches what \<open>exec\<close> throws.\<close>

fun tryCommandsSequentially ::
  "'w exec \<Rightarrow> jsstring list \<Rightarrow> (cb_error + bool \<Rightarrow> 'w \<Rightarrow> 'r) \<Rightarrow> 'w \<Rightarrow> ('w, 'r) completion"
  where
  "tryCommandsSequentially ex [] cb w = Called (cb (Inl NoCommands) w)"
| "tryCommandsSequentially ex (cmd # rest) cb w =
     (case ex cmd w of
        (SyncThrow, w') \<Rightarrow> Uncaught w'
      | (Exited status other, w') \<Rightarrow>
          if \<not> reports_error (Exited status other) then Called (cb (Inr True) w')
          else if rest = [] then Called (cb (Inl (ExecError cmd status other)) w')
          else tryCommandsSequentially ex rest cb w')"


definition hideWindow :: "manager \<Rightarrow> manager" where
  "hideWindow s =
     (case mainWindow s of
        None \<Rightarrow> s
      | Some w \<Rightarrow> s\<lparr>mainWindow := Some (w\<lparr>visible := False\<rparr>)\<rparr>)"

definition pasteCommands :: "bool \<Rightarrow> entry \<Rightarrow> jsstring list" where
  "pasteCommands wayland item =
     (if wayland then
        [js ''wtype -M ctrl v -m ctrl''] @
        (if entry_type item \<noteq> Image
         then [js ''wtype --delay 1 '' @ shellEscape (Some (content item))] else [])
      else
        [js ''xdotool key --clearmodifiers ctrl+v''] @
        (if entry_type item \<noteq> Image
         then [js ''xdotool type --clearmodifiers --delay 1 ''
                 @ shellEscape (Some (content item)),
               js ''xclip -selection clipboard -o | xdotool type --clearmodifiers --file -'']
         else []))"

text \<open>The promise of \<open>pasteItem\<close>: resolved, rejected, or still pending when nothing
  more can settle it.\<close>

datatype 'a promise = Resolved 'a | Rejected cb_error | Pending

text \<open>\<open>runPasteSequence()\<close>: the chain, whose callback ignores its arguments, forgets
  the window id and resolves with \<open>true\<close>. When \<open>exec\<close> throws in the chain the
  exception leaves the timer or \<open>exec\<close> callback it is in, and the promise stays
  pending.\<close>

definition runPasteSequence ::
  "'w exec \<Rightarrow> bool \<Rightarrow> entry \<Rightarrow> manager \<Rightarrow> 'w \<Rightarrow> bool promise \<times> manager \<times> 'w" where
  "runPasteSequence ex wayland item s w =
     (case tryCommandsSequentially ex (pasteCommands wayland item)
             (\<lambda>r w'. (Resolved True, s\<lparr>lastActiveWindowId := None\<rparr>, w')) w of
        Called result \<Rightarrow> result
      | Uncaught w' \<Rightarrow> (Pending, s, w'))"

text \<open>The first step of \<open>pasteItem\<close>: put the item on the system clipboard, as an image
  or as text.\<close>

definition stageClipboard :: "entry \<Rightarrow> manager \<Rightarrow> manager" where
  "stageClipboard item s =
     s\<lparr>os_clipboard :=
         (if entry_type item = Image then writeImage (content item)
          else writeText (content item))\<rparr>"

text \<open>
  \<open>pasteItem(item)\<close>, with \<open>isWaylandSession()\<close> as a parameter: write the clipboard, hide
  the window, after the delay activate the remembered window (X11 only, and only when
  the id is truthy; the error of that command is ignored), then run the paste sequence.
\<close>

definition pasteItem ::
  "'w exec \<Rightarrow> bool \<Rightarrow> entry \<Rightarrow> manager \<Rightarrow> 'w \<Rightarrow> bool promise \<times> manager \<times> 'w" where
  "pasteItem ex wayland item s w =
     (let s1 = stageClipboard item s;
          s2 = hideWindow s1
      in case lastActiveWindowId s2 of
           None \<Rightarrow> runPasteSequence ex wayland item s2 w
         | Some wid \<Rightarrow>
             if \<not> wayland \<and> wid \<noteq> [] then
               (case ex (js ''xdotool windowactivate --sync '' @ wid) w of
                  (SyncThrow, w') \<Rightarrow> (Pending, s2, w')
                | (Exited status other, w') \<Rightarrow> runPasteSequence ex wayland item s2 w')
             else runPasteSequence ex wayland item s2 w)"

subsection \<open>Hotkey\<close>

text \<open>\<open>globalShortcut.register(accelerator, callback)\<close> either returns a boolean, which
  the source never looks at (\<open>false\<close> when another application has the combination),
  or throws.\<close>

datatype reg_outcome = Returns bool | Throws

definition store_set_hotkey :: "jsstring \<Rightarrow> manager \<Rightarrow> manager" where
  "store_set_hotkey h s =
     s\<lparr>the_store := (the_store s)\<lparr>st_hotkey := h\<rparr>, events := events s @ [StoreSetHotkey h]\<rparr>"

definition note_registered :: "bool \<Rightarrow> jsstring \<Rightarrow> manager \<Rightarrow> manager" where
  "note_registered ok h s = (if ok then s\<lparr>registered := registered s @ [h]\<rparr> else s)"

text \<open>The \<open>for\<close> loop over the fallbacks in the \<open>catch\<close> block of
  \<open>setupGlobalShortcuts\<close>; the boolean is the variable \<open>registered\<close> of the source.\<close>

fun tryFallbacks ::
  "(jsstring \<Rightarrow> reg_outcome) \<Rightarrow> jsstring \<Rightarrow> jsstring list \<Rightarrow> manager \<Rightarrow> bool \<times> manager"
  where
  "tryFallbacks reg primaryHotkey [] s = (False, s)"
| "tryFallbacks reg primaryHotkey (fallback # rest) s =
     (if fallback \<noteq> primaryHotkey then
        (case reg fallback of
           Returns ok \<Rightarrow> (True, store_set_hotkey fallback (note_registered ok fallback s))
         | Throws \<Rightarrow> tryFallbacks reg primaryHotkey rest s)
      else tryFallbacks reg primaryHotkey rest s)"

definition fallbacks :: "jsstring list" where
  "fallbacks = [js ''Super+V'', js ''Alt+V'', js ''CommandOrControl+Alt+V'']"

text \<open>\<open>setupGlobalShortcuts()\<close> catches every exception of \<open>register\<close>, so it always
  returns: the result is \<open>Some\<close> of the new state, \<open>None\<close> standing for a throw.\<close>

definition setupGlobalShortcuts ::
  "(jsstring \<Rightarrow> reg_outcome) \<Rightarrow> manager \<Rightarrow> manager option" where
  "setupGlobalShortcuts reg s =
     (let primaryHotkey = st_hotkey (the_store s)
      in case reg primaryHotkey of
           Returns ok \<Rightarrow> Some (note_registered ok primaryHotkey s)
         | Throws \<Rightarrow> Some (snd (tryFallbacks reg primaryHotkey fallbacks s)))"

text \<open>The handler \<open>set-hotkey\<close>: unregister all, save the new hotkey, register it; when
  that throws, run \<open>setupGlobalShortcuts\<close> and return \<open>true\<close>, or \<open>false\<close> if that
  throws too.\<close>

definition set_hotkey ::
  "(jsstring \<Rightarrow> reg_outcome) \<Rightarrow> jsstring \<Rightarrow> manager \<Rightarrow> bool \<times> manager" where
  "set_hotkey reg hotkeyString s =
     (let s1 = s\<lparr>registered := []\<rparr>;
          s2 = store_set_hotkey hotkeyString s1
      in case reg hotkeyString of
           Returns ok \<Rightarrow> (True, note_registered ok hotkeyString s2)
         | Throws \<Rightarrow>
             (case setupGlobalShortcuts reg s2 of
                Some s3 \<Rightarrow> (True, s3)
              | None \<Rightarrow> (False, s2)))"

definition get_current_hotkey :: "manager \<Rightarrow> jsstring" where
  "get_current_hotkey s = st_hotkey (the_store s)"

subsection \<open>Sequences of adds, and the words of the specification\<close>

text \<open>The calls \<open>addToHistory(x1)\<close>, ..., \<open>addToHistory(xn)\<close> one after the other.\<close>

definition addEntries :: "entry list \<Rightarrow> manager \<Rightarrow> manager" where
  "addEntries items s = fold addToHistory items s"

text \<open>A list of entries, newest first, with only the newest entry of each content.\<close>

fun newestOfEach :: "entry list \<Rightarrow> entry list" where
  "newestOfEach [] = []"
| "newestOfEach (x # xs) = x # filter (\<lambda>e. content e \<noteq> content x) (newestOfEach xs)"

text \<open>Containing a string as a substring, in the words of the specification.\<close>

definition contains_substring :: "jsstring \<Rightarrow> jsstring \<Rightarrow> bool" where
  "contains_substring hay needle = (\<exists>before after. hay = before @ needle @ after)"

text \<open>The search that the source computes, in those words: the entries whose content,
  through \<open>toLowerCase\<close>, contains the query, through \<open>toLowerCase\<close>, in stored order;
  the whole list for the empty query.\<close>

definition search_spec :: "(jsstring \<Rightarrow> jsstring) \<Rightarrow> jsstring \<Rightarrow> entry list \<Rightarrow> entry list" where
  "search_spec toLowerCase query h =
     (if query = [] then h
      else filter (\<lambda>e. contains_substring (toLowerCase (content e)) (toLowerCase query)) h)"

subsection \<open>States, entries and environments for the examples\<close>

definition text_entry_of :: "jsstring \<Rightarrow> bool \<Rightarrow> nat \<Rightarrow> entry" where
  "text_entry_of c p i =
     \<lparr>entry_type = Text, content = c, timestamp = js ''2025-01-01T00:00:00.000Z'',
      pinned = p, entry_id = i\<rparr>"

definition text_entry :: "string \<Rightarrow> bool \<Rightarrow> nat \<Rightarrow> entry" where
  "text_entry c p i = text_entry_of (js c) p i"

text \<open>A running manager with a window, the given history (also in the store), last-seen
  text and \<open>maxItems\<close>.\<close>

definition manager_with :: "entry list \<Rightarrow> string \<Rightarrow> int \<Rightarrow> manager" where
  "manager_with h lastText maxItems =
     \<lparr>mainWindow = Some \<lparr>destroyed = False, visible = True\<rparr>,
      clipboardHistory = h,
      lastClipboardContent = js lastText,
      lastImageDataURL = [],
      lastActiveWindowId = None,
      registered = [js ''Super+V''],
      the_store =
        \<lparr>st_clipboardHistory = h, st_maxItems = maxItems, st_hotkey = js ''Super+V''\<rparr>,
      os_clipboard = \<lparr>clip_text = js lastText, clip_image = []\<rparr>,
      events = []\<rparr>"

text \<open>Commands that all succeed, commands that all fail, and commands of which exactly
  the given one succeeds, in a world with nothing to change.\<close>

definition exec_ok :: "unit exec" where
  "exec_ok cmd w = (Exited 0 False, w)"






text \<open>A reading of the clock for the examples.\<close>

definition clock_example :: clock where
  "clock_example = \<lparr>toISOString = js ''2025-01-02T00:00:00.000Z'', now = 5\<rparr>"

text \<open>A state like the given one whose store holds the given hotkey.\<close>

definition with_hotkey :: "jsstring \<Rightarrow> manager \<Rightarrow> manager" where
  "with_hotkey h s = s\<lparr>the_store := (the_store s)\<lparr>st_hotkey := h\<rparr>\<rparr>"

text \<open>A \<open>register\<close> that throws for the one given accelerator and registers every other
  one; and one that returns \<open>false\<close> for the given accelerator, which another
  application has, and registers every other one.\<close>

definition reg_except :: "jsstring \<Rightarrow> jsstring \<Rightarrow> reg_outcome" where
  "reg_except taken h = (if h = taken then Throws else Returns True)"

definition reg_taken :: "jsstring \<Rightarrow> jsstring \<Rightarrow> reg_outcome" where
  "reg_taken taken h = Returns (h \<noteq> taken)"

text \<open>The condition of \<open>notifyRenderer\<close>: there is a window and it is not destroyed.\<close>

definition windowAlive :: "manager \<Rightarrow> bool" where
  "windowAlive s = (case mainWindow s of None \<Rightarrow> False | Some w \<Rightarrow> \<not> destroyed w)"

text \<open>The entry that the watcher builds for a text it has read.\<close>

definition captured_text :: "clock \<Rightarrow> jsstring \<Rightarrow> entry" where
  "captured_text clk currentContent =
     \<lparr>entry_type = Text, content = currentContent, timestamp = toISOString clk,
      pinned = False, entry_id = now clk\<rparr>"

text \<open>
  \<open>String.prototype.toLowerCase\<close> on strings made of the space and the Greek letters
  capital alpha (U+0391), capital sigma (U+03A3), small alpha (U+03B1), final small
  sigma (U+03C2) and small sigma (U+03C3). A capital sigma becomes the final sigma when
  a letter comes before it and no letter comes after it, and the small sigma otherwise.
  The flag says whether the code unit before is a letter.
\<close>

definition greek_letter :: "jschar \<Rightarrow> bool" where
  "greek_letter c = (c \<in> {0x0391, 0x03A3, 0x03B1, 0x03C2, 0x03C3})"

fun lower_greek :: "bool \<Rightarrow> jsstring \<Rightarrow> jsstring" where
  "lower_greek before [] = []"
| "lower_greek before (c # cs) =
     (if c = 0x0391 then 0x03B1 # lower_greek True cs
      else if c = 0x03A3 then
        (if before \<and> \<not> (case cs of [] \<Rightarrow> False | d # ds \<Rightarrow> greek_letter d)
         then 0x03C2 else 0x03C3) # lower_greek True cs
      else c # lower_greek (greek_letter c) cs)"

definition toLowerCase_greek :: "jsstring \<Rightarrow> jsstring" where
  "toLowerCase_greek s = lower_greek False s"

subsection \<open>Facts about the list steps\<close>

lemma slice0_nonneg: "0 \<le> n \<Longrightarrow> slice0 n xs = take (nat n) xs"
  by (simp add: slice0_def Let_def min_def)

lemma slice0_take: "\<exists>k. slice0 n xs = take k xs"
  unfolding slice0_def Let_def by blast

lemma history_saveHistory [simp]: "clipboardHistory (saveHistory s) = clipboardHistory s"
  by (simp add: saveHistory_def)

lemma history_notifyRenderer [simp]: "clipboardHistory (notifyRenderer s) = clipboardHistory s"
  by (simp add: notifyRenderer_def split: option.splits)

lemma history_addToHistory:
  "clipboardHistory (addToHistory item s) =
     slice0 (st_maxItems (the_store s)) (unshift item (removeExisting item (clipboardHistory s)))"
  by (simp add: addToHistory_def Let_def)

lemma sh_word_replaceQuotes: "sh_word True (replaceQuotes s @ [squote]) = Some s"
  by (induction s) (simp_all add: squote_def bslash_def)

lemma replaceQuotes_concat:
  "replaceQuotes s =
     concat (map (\<lambda>c. if c = squote then [squote, bslash, squote, squote] else [c]) s)"
  by (induction s) simp_all

lemma stored_addToHistory:
  "st_clipboardHistory (the_store (addToHistory item s)) = clipboardHistory (addToHistory item s)"
  by (simp add: addToHistory_def Let_def saveHistory_def notifyRenderer_def split: option.splits)

lemma maxItems_addToHistory [simp]:
  "st_maxItems (the_store (addToHistory item s)) = st_maxItems (the_store s)"
  by (simp add: addToHistory_def Let_def saveHistory_def notifyRenderer_def split: option.splits)

subsection \<open>Facts about sequences of adds\<close>

lemma unpinned_le: "length (filter P (take n xs)) \<le> n"
  by (metis length_filter_le length_take min.cobounded2 order_trans)

lemma distinct_content_step:
  assumes "distinct (map content h)"
  shows "distinct (map content (slice0 n (unshift item (removeExisting item h))))"
proof -
  obtain k where k: "slice0 n (unshift item (removeExisting item h)) = take k (unshift item (removeExisting item h))"
    using slice0_take by blast
  have "distinct (map content (unshift item (removeExisting item h)))"
    using assms by (auto simp: unshift_def removeExisting_def distinct_map_filter)
  then show ?thesis unfolding k by (simp add: take_map [symmetric] del: take_map)
qed

lemma distinct_content_addToHistory:
  "distinct (map content (clipboardHistory s)) \<Longrightarrow>
   distinct (map content (clipboardHistory (addToHistory item s)))"
  by (simp add: history_addToHistory distinct_content_step)

lemma distinct_content_addEntries:
  "distinct (map content (clipboardHistory s)) \<Longrightarrow>
   distinct (map content (clipboardHistory (addEntries items s)))"
  unfolding addEntries_def
  by (induction items arbitrary: s) (simp_all add: distinct_content_addToHistory)

lemma filter_all_id: "\<forall>e\<in>set d. content e \<noteq> c \<Longrightarrow> filter (\<lambda>e. content e \<noteq> c) d = d"
  by simp

lemma other_contents:
  assumes "distinct (map content (x # d))"
  shows "\<forall>e\<in>set d. content e \<noteq> content x"
proof
  fix e assume "e \<in> set d"
  then have "content e \<in> content ` set d" by (rule imageI)
  moreover from assms have "content x \<notin> content ` set d" by simp
  ultimately show "content e \<noteq> content x" by auto
qed

lemma take_filter_one_out:
  assumes "distinct (map content d)"
  shows "take n (filter (\<lambda>e. content e \<noteq> c) (take (Suc n) d)) = take n (filter (\<lambda>e. content e \<noteq> c) d)"
  using assms
proof (induction d arbitrary: n)
  case Nil
  then show ?case by simp
next
  case (Cons x d)
  show ?case
  proof (cases "content x = c")
    case True
    have all: "\<forall>e\<in>set d. content e \<noteq> c"
      using other_contents [OF Cons.prems] True by simp
    have 1: "filter (\<lambda>e. content e \<noteq> c) d = d"
      using all by (rule filter_all_id)
    have "\<forall>e\<in>set (take n d). content e \<noteq> c"
      using all by (meson in_set_takeD)
    then have 2: "filter (\<lambda>e. content e \<noteq> c) (take n d) = take n d"
      by (rule filter_all_id)
    have "take n (filter (\<lambda>e. content e \<noteq> c) (take (Suc n) (x # d))) = take n (take n d)"
      using True by (simp add: 2)
    also have "\<dots> = take n (filter (\<lambda>e. content e \<noteq> c) (x # d))"
      using True by (simp add: 1)
    finally show ?thesis .
  next
    case False
    have d: "distinct (map content d)" using Cons.prems by simp
    show ?thesis
    proof (cases n)
      case 0
      then show ?thesis by simp
    next
      case (Suc m)
      then show ?thesis using False Cons.IH [OF d, of m] by simp
    qed
  qed
qed

lemma distinct_filter_content:
  "distinct (map content xs) \<Longrightarrow> distinct (map content (filter P xs))"
  by (rule distinct_map_filter)

lemma content_notin_removed:
  "content x \<notin> content ` set (filter (\<lambda>e. content e \<noteq> content x) xs)"
  by auto

lemma distinct_newestOfEach: "distinct (map content (newestOfEach xs))"
proof (induction xs)
  case Nil
  show ?case by simp
next
  case (Cons x xs)
  have "distinct (map content (filter (\<lambda>e. content e \<noteq> content x) (newestOfEach xs)))"
    using Cons.IH by (rule distinct_filter_content)
  with content_notin_removed [of x "newestOfEach xs"] show ?case by simp
qed

lemma newestOfEach_distinct_id: "distinct (map content h) \<Longrightarrow> newestOfEach h = h"
proof (induction h)
  case Nil
  then show ?case by simp
next
  case (Cons a h)
  have "filter (\<lambda>e. content e \<noteq> content a) h = h"
    using other_contents [OF Cons.prems] by (rule filter_all_id)
  moreover have "newestOfEach h = h" using Cons by simp
  ultimately show ?case by simp
qed

lemma addEntries_snoc: "addEntries (items @ [x]) s = addToHistory x (addEntries items s)"
  by (simp add: addEntries_def)

lemma maxItems_addEntries: "st_maxItems (the_store (addEntries items s)) = st_maxItems (the_store s)"
  by (induction items rule: rev_induct) (simp_all add: addEntries_snoc, simp add: addEntries_def)

lemma take_Suc_add_step:
  "take (Suc n) (x # filter (\<lambda>e. content e \<noteq> content x) (take (Suc n) (newestOfEach ys))) =
   take (Suc n) (x # filter (\<lambda>e. content e \<noteq> content x) (newestOfEach ys))"
  using take_filter_one_out [OF distinct_newestOfEach, of n "content x" ys] by simp

lemma take_add_step:
  "take k (x # filter (\<lambda>e. content e \<noteq> content x) (take k (newestOfEach ys))) =
   take k (x # filter (\<lambda>e. content e \<noteq> content x) (newestOfEach ys))"
proof (cases k)
  case 0
  then show ?thesis by simp
next
  case (Suc n)
  show ?thesis unfolding Suc by (rule take_Suc_add_step)
qed

lemma history_addEntries:
  assumes N: "0 \<le> st_maxItems (the_store s)"
      and len: "int (length (clipboardHistory s)) \<le> st_maxItems (the_store s)"
      and dist: "distinct (map content (clipboardHistory s))"
  shows "clipboardHistory (addEntries items s) =
         take (nat (st_maxItems (the_store s))) (newestOfEach (rev items @ clipboardHistory s))"
proof (induction items rule: rev_induct)
  case Nil
  have "newestOfEach (clipboardHistory s) = clipboardHistory s"
    using dist by (rule newestOfEach_distinct_id)
  moreover have "length (clipboardHistory s) \<le> nat (st_maxItems (the_store s))"
    using len N by linarith
  ultimately show ?case by (simp add: addEntries_def)
next
  case (snoc x items)
  let ?k = "nat (st_maxItems (the_store s))"
  let ?D = "newestOfEach (rev items @ clipboardHistory s)"
  have "clipboardHistory (addEntries (items @ [x]) s) =
          slice0 (st_maxItems (the_store s))
            (unshift x (removeExisting x (clipboardHistory (addEntries items s))))"
    by (simp only: addEntries_snoc history_addToHistory maxItems_addEntries)
  also have "\<dots> = take ?k (x # filter (\<lambda>e. content e \<noteq> content x) (take ?k ?D))"
    by (simp only: slice0_nonneg [OF N] unshift_def removeExisting_def snoc.IH)
  also have "\<dots> = take ?k (x # filter (\<lambda>e. content e \<noteq> content x) ?D)"
    by (rule take_add_step)
  also have "\<dots> = take ?k (newestOfEach (rev (items @ [x]) @ clipboardHistory s))"
    by simp
  finally show ?case .
qed

lemma head_after_add:
  assumes "1 \<le> st_maxItems (the_store s)"
  shows "\<exists>rest. clipboardHistory (addToHistory item s) = item # rest
           \<and> (\<forall>e\<in>set rest. content e \<noteq> content item)"
proof -
  let ?F = "filter (\<lambda>e. content e \<noteq> content item) (clipboardHistory s)"
  obtain n where n: "nat (st_maxItems (the_store s)) = Suc n"
    using assms by (cases "nat (st_maxItems (the_store s))") auto
  have "clipboardHistory (addToHistory item s) = take (Suc n) (item # ?F)"
    using assms n by (simp add: history_addToHistory slice0_nonneg unshift_def removeExisting_def)
  then have eq: "clipboardHistory (addToHistory item s) = item # take n ?F" by simp
  have "\<forall>e\<in>set (take n ?F). content e \<noteq> content item"
    by (auto dest: in_set_takeD)
  with eq show ?thesis by blast
qed

subsection \<open>Facts about substrings\<close>

lemma startsWith_iff: "startsWith hay needle \<longleftrightarrow> (\<exists>after. hay = needle @ after)"
  by (induction hay needle rule: startsWith.induct) auto

lemma includes_str_iff: "includes_str hay needle \<longleftrightarrow> contains_substring hay needle"
proof (induction hay)
  case Nil
  show ?case by (auto simp: contains_substring_def)
next
  case (Cons h hs)
  have "contains_substring (h # hs) needle \<longleftrightarrow>
        (\<exists>after. h # hs = needle @ after) \<or> contains_substring hs needle"
  proof
    assume "contains_substring (h # hs) needle"
    then obtain b a where eq: "h # hs = b @ needle @ a" unfolding contains_substring_def by blast
    show "(\<exists>after. h # hs = needle @ after) \<or> contains_substring hs needle"
    proof (cases b)
      case Nil
      with eq show ?thesis by auto
    next
      case (Cons b0 bs)
      with eq have "hs = bs @ needle @ a" by simp
      then show ?thesis unfolding contains_substring_def by blast
    qed
  next
    assume "(\<exists>after. h # hs = needle @ after) \<or> contains_substring hs needle"
    then show "contains_substring (h # hs) needle"
    proof
      assume "\<exists>after. h # hs = needle @ after"
      then obtain a where "h # hs = [] @ needle @ a" by auto
      then show ?thesis unfolding contains_substring_def by blast
    next
      assume "contains_substring hs needle"
      then obtain b a where "hs = b @ needle @ a" unfolding contains_substring_def by blast
      then have "h # hs = (h # b) @ needle @ a" by simp
      then show ?thesis unfolding contains_substring_def by blast
    qed
  qed
  with Cons show ?case by (simp add: startsWith_iff)
qed

subsection \<open>Facts about the fallback chain and paste\<close>




lemma hideWindow_fields:
  "clipboardHistory (hideWindow s) = clipboardHistory s"
  "lastClipboardContent (hideWindow s) = lastClipboardContent s"
  "lastImageDataURL (hideWindow s) = lastImageDataURL s"
  "lastActiveWindowId (hideWindow s) = lastActiveWindowId s"
  "os_clipboard (hideWindow s) = os_clipboard s"
  "the_store (hideWindow s) = the_store s"
  "events (hideWindow s) = events s"
  by (simp_all add: hideWindow_def split: option.splits)

lemma try_const_callback:
  "(\<exists>w'. tryCommandsSequentially ex commands (\<lambda>r w'. (a, b, w')) w = Called (a, b, w'))
   \<or> (\<exists>w'. tryCommandsSequentially ex commands (\<lambda>r w'. (a, b, w')) w = Uncaught w')"
proof (induction commands arbitrary: w)
  case Nil
  show ?case by simp
next
  case (Cons cmd rest)
  obtain out w1 where step: "ex cmd w = (out, w1)" by (cases "ex cmd w")
  show ?case
  proof (cases out)
    case SyncThrow
    with step show ?thesis by simp
  next
    case (Exited status other)
    with step Cons [of w1] show ?thesis by auto
  qed
qed


lemma runPasteSequence_cases:
  "(\<exists>w'. runPasteSequence ex wayland item s w
            = (Resolved True, s\<lparr>lastActiveWindowId := None\<rparr>, w'))
   \<or> (\<exists>w'. runPasteSequence ex wayland item s w = (Pending, s, w'))"
  using try_const_callback [of ex "pasteCommands wayland item" "Resolved True"
      "s\<lparr>lastActiveWindowId := None\<rparr>" w]
  by (auto simp: runPasteSequence_def)


lemma pasteItem_cases:
  "(\<exists>w'. pasteItem ex wayland item s w
      = (Resolved True,
         (hideWindow (stageClipboard item s))\<lparr>lastActiveWindowId := None\<rparr>, w'))
   \<or> (\<exists>w'. pasteItem ex wayland item s w
      = (Pending,
         hideWindow (stageClipboard item s), w'))"
proof -
  let ?s2 = "hideWindow (stageClipboard item s)"
  show ?thesis
  proof (cases "lastActiveWindowId ?s2")
    case None
    with runPasteSequence_cases [of ex wayland item ?s2 w] show ?thesis
      by (simp add: pasteItem_def Let_def)
  next
    case (Some wid)
    show ?thesis
    proof (cases "\<not> wayland \<and> wid \<noteq> []")
      case False
      with Some runPasteSequence_cases [of ex wayland item ?s2 w] show ?thesis
        by (auto simp add: pasteItem_def Let_def)
    next
      case True
      obtain out w1 where act: "ex (js ''xdotool windowactivate --sync '' @ wid) w = (out, w1)"
        by (cases "ex (js ''xdotool windowactivate --sync '' @ wid) w")
      show ?thesis
      proof (cases out)
        case SyncThrow
        with Some True act show ?thesis by (auto simp add: pasteItem_def Let_def)
      next
        case (Exited status other)
        with Some True act runPasteSequence_cases [of ex wayland item ?s2 w1] show ?thesis
          by (auto simp add: pasteItem_def Let_def)
      qed
    qed
  qed
qed


lemma pasteItem_state_fields:
  "os_clipboard (fst (snd (pasteItem ex wayland item s w)))
     = (if entry_type item = Image then writeImage (content item) else writeText (content item))"
  "clipboardHistory (fst (snd (pasteItem ex wayland item s w))) = clipboardHistory s"
  "lastClipboardContent (fst (snd (pasteItem ex wayland item s w))) = lastClipboardContent s"
  "the_store (fst (snd (pasteItem ex wayland item s w))) = the_store s"
  "events (fst (snd (pasteItem ex wayland item s w))) = events s"
  using pasteItem_cases [of ex wayland item s w]
  by (auto simp: hideWindow_fields stageClipboard_def)



subsection \<open>Facts about the watcher\<close>

lemma os_clipboard_addToHistory:
  "os_clipboard (addToHistory item s) = os_clipboard s"
  by (simp add: addToHistory_def Let_def saveHistory_def notifyRenderer_def split: option.splits)

lemma trim_Nil: "trim [] = []"
  by (simp add: trim_def)

lemma watch_image_empty: "clip_image (os_clipboard s) = [] \<Longrightarrow> watch_image clk s = s"
  by (simp add: watch_image_def)

subsection \<open>Facts about the hotkey fallbacks\<close>

lemma tryFallbacks_first:
  assumes "find (\<lambda>f. f \<noteq> h \<and> reg f \<noteq> Throws) fs = Some f"
  shows "fst (tryFallbacks reg h fs s) = True
       \<and> st_hotkey (the_store (snd (tryFallbacks reg h fs s))) = f"
  using assms
proof (induction fs)
  case Nil
  then show ?case by simp
next
  case (Cons g fs)
  show ?case
  proof (cases "g \<noteq> h \<and> reg g \<noteq> Throws")
    case True
    with Cons.prems have "f = g" by simp
    moreover from True obtain ok where "reg g = Returns ok" by (cases "reg g") auto
    ultimately show ?thesis
      using True by (simp add: store_set_hotkey_def note_registered_def)
  next
    case False
    with Cons.prems have "find (\<lambda>f. f \<noteq> h \<and> reg f \<noteq> Throws) fs = Some f" by simp
    from Cons.IH [OF this] False show ?thesis by (cases "reg g") auto
  qed
qed

lemma tryFallbacks_events:
  assumes "find (\<lambda>f. f \<noteq> h \<and> reg f \<noteq> Throws) fs = Some f"
  shows "events (snd (tryFallbacks reg h fs s)) = events s @ [StoreSetHotkey f]"
  using assms
proof (induction fs)
  case Nil
  then show ?case by simp
next
  case (Cons g fs)
  show ?case
  proof (cases "g \<noteq> h \<and> reg g \<noteq> Throws")
    case True
    with Cons.prems have "f = g" by simp
    moreover from True obtain ok where "reg g = Returns ok" by (cases "reg g") auto
    ultimately show ?thesis
      using True by (simp add: store_set_hotkey_def note_registered_def)
  next
    case False
    with Cons.prems have "find (\<lambda>f. f \<noteq> h \<and> reg f \<noteq> Throws) fs = Some f" by simp
    from Cons.IH [OF this] False show ?thesis by (cases "reg g") auto
  qed
qed

lemma set_hotkey_returns:
  assumes "reg hotkeyString = Returns ok"
  shows "fst (set_hotkey reg hotkeyString s) = True
       \<and> get_current_hotkey (snd (set_hotkey reg hotkeyString s)) = hotkeyString
       \<and> events (snd (set_hotkey reg hotkeyString s)) = events s @ [StoreSetHotkey hotkeyString]
       \<and> registered (snd (set_hotkey reg hotkeyString s)) = (if ok then [hotkeyString] else [])"
  using assms
  by (simp add: set_hotkey_def Let_def store_set_hotkey_def note_registered_def
      get_current_hotkey_def)

lemma set_hotkey_throws:
  assumes "reg hotkeyString = Throws"
      and "find (\<lambda>f. f \<noteq> hotkeyString \<and> reg f \<noteq> Throws) fallbacks = Some f"
  shows "fst (set_hotkey reg hotkeyString s) = True
       \<and> get_current_hotkey (snd (set_hotkey reg hotkeyString s)) = f
       \<and> f \<noteq> hotkeyString
       \<and> events (snd (set_hotkey reg hotkeyString s))
           = events s @ [StoreSetHotkey hotkeyString, StoreSetHotkey f]"
proof -
  let ?s2 = "store_set_hotkey hotkeyString (s\<lparr>registered := []\<rparr>)"
  have prim: "st_hotkey (the_store ?s2) = hotkeyString"
    by (simp add: store_set_hotkey_def)
  have ev2: "events ?s2 = events s @ [StoreSetHotkey hotkeyString]"
    by (simp add: store_set_hotkey_def)
  have sgs: "setupGlobalShortcuts reg ?s2 = Some (snd (tryFallbacks reg hotkeyString fallbacks ?s2))"
    using assms(1) by (simp add: setupGlobalShortcuts_def Let_def prim)
  have res: "set_hotkey reg hotkeyString s = (True, snd (tryFallbacks reg hotkeyString fallbacks ?s2))"
    using assms(1) by (simp add: set_hotkey_def Let_def sgs)
  have "f \<noteq> hotkeyString"
    using assms(2) by (auto simp: find_Some_iff)
  with res tryFallbacks_first [OF assms(2), of ?s2] tryFallbacks_events [OF assms(2), of ?s2] ev2
  show ?thesis
    by (simp add: get_current_hotkey_def)
qed

subsection \<open>Facts about store writes and notifications\<close>

lemma events_addToHistory:
  "events (addToHistory item s) =
     events s @ [StoreSetHistory (clipboardHistory (addToHistory item s))]
       @ (if windowAlive s then [ClipboardUpdated (clipboardHistory (addToHistory item s))] else [])"
  by (simp add: addToHistory_def Let_def saveHistory_def notifyRenderer_def windowAlive_def
      split: option.splits)

lemma events_clearHistory:
  "events (clearHistory s) =
     events s @ [StoreSetHistory []] @ (if windowAlive s then [ClipboardUpdated []] else [])
   \<and> clipboardHistory (clearHistory s) = []
   \<and> st_clipboardHistory (the_store (clearHistory s)) = []"
  by (simp add: clearHistory_def saveHistory_def notifyRenderer_def windowAlive_def
      split: option.splits)

lemma toggle_pin_in_range:
  assumes "at_index (clipboardHistory s) index = Some e"
  shows "fst (toggle_pin index s) = True
       \<and> clipboardHistory (snd (toggle_pin index s))
           = (clipboardHistory s)[nat index := e\<lparr>pinned := \<not> pinned e\<rparr>]
       \<and> st_clipboardHistory (the_store (snd (toggle_pin index s)))
           = clipboardHistory (snd (toggle_pin index s))
       \<and> events (snd (toggle_pin index s))
           = events s @ [StoreSetHistory (clipboardHistory (snd (toggle_pin index s)))]"
  using assms by (simp add: toggle_pin_def saveHistory_def)

lemma delete_item_in_range:
  assumes "at_index (clipboardHistory s) index = Some e"
  shows "fst (delete_item index s) = True
       \<and> clipboardHistory (snd (delete_item index s)) = splice1 (nat index) (clipboardHistory s)
       \<and> st_clipboardHistory (the_store (snd (delete_item index s)))
           = clipboardHistory (snd (delete_item index s))
       \<and> events (snd (delete_item index s))
           = events s @ [StoreSetHistory (clipboardHistory (snd (delete_item index s)))]"
  using assms by (simp add: delete_item_def saveHistory_def)

section \<open>The claims\<close>

subsection \<open>C1: what the eviction removes\<close>

text \<open>
  C1, as stated, fails: the eviction step of \<open>addToHistory\<close> removes pinned entries.
  With the history c, b (b pinned) and \<open>maxItems = 2\<close>, adding d leaves d, c: the
  pinned entry b, which the list held before the cut, is gone.
\<close>

theorem addToHistory_evicts_pinned_counterexample:
  "pinned (text_entry ''b'' True 1)
   \<and> text_entry ''b'' True 1 \<in> set (unshift (text_entry ''d'' False 3)
        (removeExisting (text_entry ''d'' False 3)
          (clipboardHistory (manager_with [text_entry ''c'' False 2, text_entry ''b'' True 1] ''c'' 2))))
   \<and> clipboardHistory (addToHistory (text_entry ''d'' False 3)
        (manager_with [text_entry ''c'' False 2, text_entry ''b'' True 1] ''c'' 2))
      = [text_entry ''d'' False 3, text_entry ''c'' False 2]
   \<and> text_entry ''b'' True 1 \<notin> set (clipboardHistory (addToHistory (text_entry ''d'' False 3)
        (manager_with [text_entry ''c'' False 2, text_entry ''b'' True 1] ''c'' 2)))"
  by (simp add: history_addToHistory manager_with_def text_entry_def text_entry_of_def js_def unshift_def removeExisting_def slice0_def)

text \<open>
  C1, amended. For a bound \<open>maxItems\<close> that is not negative, \<open>addToHistory\<close> keeps
  exactly the first \<open>maxItems\<close> entries of the list it has after removing the same
  content and putting the new entry in front, whatever their pinned flags; so at most
  \<open>maxItems\<close> unpinned entries are left.
\<close>

theorem addToHistory_cuts_after_maxItems:
  assumes "0 \<le> st_maxItems (the_store s)"
  shows "clipboardHistory (addToHistory item s) =
           take (nat (st_maxItems (the_store s)))
             (unshift item (removeExisting item (clipboardHistory s)))
       \<and> int (length (filter (\<lambda>e. \<not> pinned e) (clipboardHistory (addToHistory item s))))
           \<le> st_maxItems (the_store s)"
proof -
  have eq: "clipboardHistory (addToHistory item s) =
           take (nat (st_maxItems (the_store s)))
             (unshift item (removeExisting item (clipboardHistory s)))"
    using assms by (simp add: history_addToHistory slice0_nonneg)
  have "length (filter (\<lambda>e. \<not> pinned e) (clipboardHistory (addToHistory item s)))
          \<le> nat (st_maxItems (the_store s))"
    unfolding eq by (rule unpinned_le)
  with assms eq show ?thesis by linarith
qed

theorem addToHistory_cuts_after_maxItems_witness:
  "clipboardHistory (addToHistory (text_entry ''d'' False 3)
      (manager_with [text_entry ''c'' True 2, text_entry ''b'' False 1] ''c'' 2))
     = [text_entry ''d'' False 3, text_entry ''c'' True 2]
   \<and> int (length (filter (\<lambda>e. \<not> pinned e) (clipboardHistory (addToHistory (text_entry ''d'' False 3)
      (manager_with [text_entry ''c'' True 2, text_entry ''b'' False 1] ''c'' 2))))) \<le> 2"
proof -
  have h: "0 \<le> st_maxItems (the_store
      (manager_with [text_entry ''c'' True 2, text_entry ''b'' False 1] ''c'' 2))"
    by (simp add: manager_with_def)
  show ?thesis
    using addToHistory_cuts_after_maxItems [OF h, of "text_entry ''d'' False 3"]
    by (simp add: manager_with_def unshift_def removeExisting_def text_entry_def text_entry_of_def js_def)
qed

subsection \<open>C2: one entry per content, newest first\<close>

text \<open>
  C2. Starting from a history with no content twice, after any sequence of
  \<open>addToHistory\<close> calls no content occurs twice. One call removes every entry with the
  content of the new one, wherever it is and whatever its pinned flag, puts the new
  entry in front and cuts the list; with \<open>maxItems\<close> at least 1 the new entry is the
  head and no other entry has its content. With a bound that is not negative and a
  history within it, the list after a sequence of calls is the first \<open>maxItems\<close>
  entries of: the added entries from the last to the first, then the old history, each
  content kept at its first place only.
\<close>

theorem addToHistory_dedup_newest_first:
  assumes "distinct (map content (clipboardHistory s))"
  shows "distinct (map content (clipboardHistory (addEntries items s)))
       \<and> clipboardHistory (addToHistory item s) =
           slice0 (st_maxItems (the_store s))
             (item # filter (\<lambda>e. content e \<noteq> content item) (clipboardHistory s))
       \<and> (1 \<le> st_maxItems (the_store s) \<longrightarrow>
            (\<exists>rest. clipboardHistory (addToHistory item s) = item # rest
               \<and> (\<forall>e\<in>set rest. content e \<noteq> content item)))
       \<and> (0 \<le> st_maxItems (the_store s)
            \<and> int (length (clipboardHistory s)) \<le> st_maxItems (the_store s) \<longrightarrow>
            clipboardHistory (addEntries items s) =
              take (nat (st_maxItems (the_store s)))
                (newestOfEach (rev items @ clipboardHistory s)))"
proof -
  have 1: "distinct (map content (clipboardHistory (addEntries items s)))"
    using assms by (rule distinct_content_addEntries)
  have 2: "clipboardHistory (addToHistory item s) =
           slice0 (st_maxItems (the_store s))
             (item # filter (\<lambda>e. content e \<noteq> content item) (clipboardHistory s))"
    by (simp add: history_addToHistory unshift_def removeExisting_def)
  from 1 2 head_after_add history_addEntries [OF _ _ assms] show ?thesis by blast
qed

theorem addToHistory_dedup_newest_first_witness:
  "map content (clipboardHistory
     (addEntries [text_entry ''hello'' False 1, text_entry ''world'' False 2,
                  text_entry ''hello'' False 3] (manager_with [] [] 50)))
   = [js ''hello'', js ''world'']
   \<and> map entry_id (clipboardHistory
     (addEntries [text_entry ''hello'' False 1, text_entry ''world'' False 2,
                  text_entry ''hello'' False 3] (manager_with [] [] 50)))
   = [3, 2]"
proof -
  have h: "distinct (map content (clipboardHistory (manager_with [] [] 50)))"
    by (simp add: manager_with_def)
  show ?thesis
    using addToHistory_dedup_newest_first [OF h,
        of "[text_entry ''hello'' False 1, text_entry ''world'' False 2,
             text_entry ''hello'' False 3]"]
    by (simp add: manager_with_def text_entry_def text_entry_of_def js_def)
qed

subsection \<open>C3: paste, then a tick of the watcher\<close>

text \<open>
  C3, as stated, fails: \<open>pasteItem\<close> writes the clipboard and leaves
  \<open>lastClipboardContent\<close> as it was, so the next tick takes the pasted text for a new
  copy whenever it differs from the last text seen. With the history b, a (a pinned,
  b seen last), pasting a and running one tick gives a new, unpinned entry a in front
  of b.
\<close>

theorem paste_then_tick_adds_entry_counterexample:
  "clipboardHistory
     (watcher_tick clock_example clock_example
        (fst (snd (pasteItem exec_ok False (text_entry ''a'' True 1)
           (manager_with [text_entry ''b'' False 2, text_entry ''a'' True 1] ''b'' 50) ()))))
   = [captured_text clock_example (js ''a''), text_entry ''b'' False 2]
   \<and> content (captured_text clock_example (js ''a'')) = content (text_entry ''a'' True 1)
   \<and> captured_text clock_example (js ''a'')
        \<notin> set (clipboardHistory
             (manager_with [text_entry ''b'' False 2, text_entry ''a'' True 1] ''b'' 50))"
  by code_simp

text \<open>
  C3, amended. For a text entry, after \<open>pasteItem(entry)\<close> and one tick that reads what
  the paste wrote: when the content is the last text the watcher saw, or is blank, the
  history, the store writes and the notifications are as before the paste; otherwise
  the tick has called \<open>addToHistory\<close> with a new unpinned text entry of that content
  and made it the last text seen.
\<close>

theorem paste_then_tick_text:
  assumes "entry_type item = Text"
  shows "(content item = lastClipboardContent s \<or> trim (content item) = [] \<longrightarrow>
            clipboardHistory (watcher_tick c1 c2 (fst (snd (pasteItem ex wayland item s w))))
              = clipboardHistory s
          \<and> events (watcher_tick c1 c2 (fst (snd (pasteItem ex wayland item s w)))) = events s
          \<and> lastClipboardContent (watcher_tick c1 c2 (fst (snd (pasteItem ex wayland item s w))))
              = lastClipboardContent s)
       \<and> (content item \<noteq> lastClipboardContent s \<and> trim (content item) \<noteq> [] \<longrightarrow>
            clipboardHistory (watcher_tick c1 c2 (fst (snd (pasteItem ex wayland item s w))))
              = clipboardHistory (addToHistory (captured_text c1 (content item)) s)
          \<and> lastClipboardContent (watcher_tick c1 c2 (fst (snd (pasteItem ex wayland item s w))))
              = content item)"
proof -
  let ?s' = "fst (snd (pasteItem ex wayland item s w))"
  have tx: "clip_text (os_clipboard ?s') = content item"
    and img: "clip_image (os_clipboard ?s') = []"
    and last: "lastClipboardContent ?s' = lastClipboardContent s"
    and hist: "clipboardHistory ?s' = clipboardHistory s"
    and ev: "events ?s' = events s"
    and st: "the_store ?s' = the_store s"
    using assms by (simp_all add: pasteItem_state_fields writeText_def)
  have same: "content item = lastClipboardContent s \<or> trim (content item) = [] \<Longrightarrow>
        watcher_tick c1 c2 ?s' = ?s'"
  proof -
    assume c: "content item = lastClipboardContent s \<or> trim (content item) = []"
    have "watch_text c1 ?s' = ?s'"
      using c by (auto simp add: watch_text_def Let_def tx last)
    then show ?thesis
      by (simp add: watcher_tick_def watch_image_empty img)
  qed
  have added: "content item \<noteq> lastClipboardContent s \<and> trim (content item) \<noteq> [] \<Longrightarrow>
        watcher_tick c1 c2 ?s' =
          (addToHistory (captured_text c1 (content item)) ?s')
            \<lparr>lastClipboardContent := content item\<rparr>"
  proof -
    assume c: "content item \<noteq> lastClipboardContent s \<and> trim (content item) \<noteq> []"
    then have "content item \<noteq> []" using trim_Nil by auto
    with c have "watch_text c1 ?s' =
          (addToHistory (captured_text c1 (content item)) ?s')
            \<lparr>lastClipboardContent := content item\<rparr>"
      by (simp add: watch_text_def Let_def tx last captured_text_def)
    then show ?thesis
      by (simp add: watcher_tick_def watch_image_empty os_clipboard_addToHistory img)
  qed
  have h2: "clipboardHistory (addToHistory (captured_text c1 (content item)) ?s')
          = clipboardHistory (addToHistory (captured_text c1 (content item)) s)"
    by (simp add: history_addToHistory hist st)
  show ?thesis
    using same added h2 hist ev last by auto
qed

theorem paste_then_tick_text_witness:
  "clipboardHistory
     (watcher_tick clock_example clock_example
        (fst (snd (pasteItem exec_ok False (text_entry ''b'' False 2)
           (manager_with [text_entry ''b'' False 2, text_entry ''a'' True 1] ''b'' 50) ()))))
   = [text_entry ''b'' False 2, text_entry ''a'' True 1]
   \<and> clipboardHistory
     (watcher_tick clock_example clock_example
        (fst (snd (pasteItem exec_ok False (text_entry ''a'' True 1)
           (manager_with [text_entry ''b'' False 2, text_entry ''a'' True 1] ''b'' 50) ()))))
   = clipboardHistory (addToHistory (captured_text clock_example (js ''a''))
       (manager_with [text_entry ''b'' False 2, text_entry ''a'' True 1] ''b'' 50))"
proof -
  let ?s = "manager_with [text_entry ''b'' False 2, text_entry ''a'' True 1] ''b'' 50"
  have tb: "entry_type (text_entry ''b'' False 2) = Text"
    and ta: "entry_type (text_entry ''a'' True 1) = Text"
    by (simp_all add: text_entry_def text_entry_of_def)
  have same: "content (text_entry ''b'' False 2) = lastClipboardContent ?s"
    by (simp add: text_entry_def text_entry_of_def manager_with_def js_def)
  have differs: "content (text_entry ''a'' True 1) \<noteq> lastClipboardContent ?s"
    by (simp add: text_entry_def text_entry_of_def manager_with_def js_def)
  have nonblank: "trim (content (text_entry ''a'' True 1)) \<noteq> []"
    by code_simp
  have hist: "clipboardHistory ?s = [text_entry ''b'' False 2, text_entry ''a'' True 1]"
    by (simp add: manager_with_def)
  have ca: "content (text_entry ''a'' True 1) = js ''a''"
    by (simp add: text_entry_def text_entry_of_def)
  show ?thesis
    using paste_then_tick_text [OF tb, of ?s clock_example clock_example exec_ok False "()"]
      paste_then_tick_text [OF ta, of ?s clock_example clock_example exec_ok False "()"]
      same differs nonblank hist ca
    by simp
qed

subsection \<open>C4: the fallback chain\<close>




subsection \<open>C5: a hotkey that cannot be registered\<close>

text \<open>
  C5, as stated, fails: the handler \<open>set-hotkey\<close> stores the new hotkey before it
  registers it and never looks at what \<open>register\<close> returns. With Alt+V stored and a
  new hotkey Ctrl+Alt+X: when its registration throws, the handler falls back through
  \<open>setupGlobalShortcuts\<close>, returns \<open>true\<close> and the store holds Super+V; when
  \<open>register\<close> returns \<open>false\<close> because another application has the combination, the
  handler returns \<open>true\<close>, the store holds Ctrl+Alt+X and nothing is registered.
\<close>

theorem set_hotkey_failure_counterexample:
  "reg_except (js ''Ctrl+Alt+X'') (js ''Ctrl+Alt+X'') = Throws
   \<and> get_current_hotkey (with_hotkey (js ''Alt+V'') (manager_with [] [] 50)) = js ''Alt+V''
   \<and> fst (set_hotkey (reg_except (js ''Ctrl+Alt+X'')) (js ''Ctrl+Alt+X'')
         (with_hotkey (js ''Alt+V'') (manager_with [] [] 50))) = True
   \<and> get_current_hotkey (snd (set_hotkey (reg_except (js ''Ctrl+Alt+X'')) (js ''Ctrl+Alt+X'')
         (with_hotkey (js ''Alt+V'') (manager_with [] [] 50)))) = js ''Super+V''
   \<and> reg_taken (js ''Ctrl+Alt+X'') (js ''Ctrl+Alt+X'') = Returns False
   \<and> fst (set_hotkey (reg_taken (js ''Ctrl+Alt+X'')) (js ''Ctrl+Alt+X'')
         (with_hotkey (js ''Alt+V'') (manager_with [] [] 50))) = True
   \<and> get_current_hotkey (snd (set_hotkey (reg_taken (js ''Ctrl+Alt+X'')) (js ''Ctrl+Alt+X'')
         (with_hotkey (js ''Alt+V'') (manager_with [] [] 50)))) = js ''Ctrl+Alt+X''
   \<and> registered (snd (set_hotkey (reg_taken (js ''Ctrl+Alt+X'')) (js ''Ctrl+Alt+X'')
         (with_hotkey (js ''Alt+V'') (manager_with [] [] 50)))) = []"
  by code_simp

text \<open>
  C5, amended. \<open>set-hotkey\<close> first stores the new hotkey. When \<open>register\<close> returns,
  also with \<open>false\<close> for a combination that another application has, the new hotkey
  stays stored, it is registered only if \<open>register\<close> returned \<open>true\<close>, and the call
  returns \<open>true\<close>. When \<open>register\<close> throws and some fallback among Super+V, Alt+V,
  CommandOrControl+Alt+V differs from the new hotkey and registers without throwing,
  the first such fallback is stored over the new hotkey and the call returns \<open>true\<close>.
\<close>

theorem set_hotkey_stores_then_falls_back:
  "(reg hotkeyString = Returns ok \<longrightarrow>
      fst (set_hotkey reg hotkeyString s) = True
    \<and> get_current_hotkey (snd (set_hotkey reg hotkeyString s)) = hotkeyString
    \<and> events (snd (set_hotkey reg hotkeyString s)) = events s @ [StoreSetHotkey hotkeyString]
    \<and> registered (snd (set_hotkey reg hotkeyString s)) = (if ok then [hotkeyString] else []))
   \<and> (reg hotkeyString = Throws
       \<and> find (\<lambda>f. f \<noteq> hotkeyString \<and> reg f \<noteq> Throws) fallbacks = Some f \<longrightarrow>
      fst (set_hotkey reg hotkeyString s) = True
    \<and> get_current_hotkey (snd (set_hotkey reg hotkeyString s)) = f
    \<and> f \<noteq> hotkeyString
    \<and> events (snd (set_hotkey reg hotkeyString s))
         = events s @ [StoreSetHotkey hotkeyString, StoreSetHotkey f])"
  using set_hotkey_returns [of reg hotkeyString ok s] set_hotkey_throws [of reg hotkeyString f s]
  by blast

theorem set_hotkey_stores_then_falls_back_witness:
  "fst (set_hotkey (reg_except (js ''Ctrl+Alt+X'')) (js ''Ctrl+Alt+X'')
         (with_hotkey (js ''Alt+V'') (manager_with [] [] 50))) = True
   \<and> events (snd (set_hotkey (reg_except (js ''Ctrl+Alt+X'')) (js ''Ctrl+Alt+X'')
         (with_hotkey (js ''Alt+V'') (manager_with [] [] 50))))
      = [StoreSetHotkey (js ''Ctrl+Alt+X''), StoreSetHotkey (js ''Super+V'')]
   \<and> events (snd (set_hotkey (reg_taken (js ''Ctrl+Alt+X'')) (js ''Ctrl+Alt+X'')
         (with_hotkey (js ''Alt+V'') (manager_with [] [] 50))))
      = [StoreSetHotkey (js ''Ctrl+Alt+X'')]"
proof -
  let ?s = "with_hotkey (js ''Alt+V'') (manager_with [] [] 50)"
  have t: "reg_except (js ''Ctrl+Alt+X'') (js ''Ctrl+Alt+X'') = Throws"
    by (simp add: reg_except_def)
  have f: "find (\<lambda>f. f \<noteq> js ''Ctrl+Alt+X'' \<and> reg_except (js ''Ctrl+Alt+X'') f \<noteq> Throws)
             fallbacks = Some (js ''Super+V'')"
    by (simp add: fallbacks_def reg_except_def js_def)
  have r: "reg_taken (js ''Ctrl+Alt+X'') (js ''Ctrl+Alt+X'') = Returns False"
    by (simp add: reg_taken_def)
  have ev: "events ?s = []"
    by (simp add: with_hotkey_def manager_with_def)
  show ?thesis
    using set_hotkey_stores_then_falls_back
        [of "reg_except (js ''Ctrl+Alt+X'')" "js ''Ctrl+Alt+X''" True ?s "js ''Super+V''"]
      set_hotkey_stores_then_falls_back
        [of "reg_taken (js ''Ctrl+Alt+X'')" "js ''Ctrl+Alt+X''" False ?s "js ''Super+V''"]
      t f r ev
    by simp
qed

subsection \<open>C6: store write and notification\<close>

text \<open>
  C6, as stated, fails: the handlers \<open>toggle-pin\<close> and \<open>delete-item\<close> save the history
  and send nothing to the renderer, which reloads the history itself after calling
  them. On a one-entry history with a live window, \<open>toggle-pin\<close> at index 0 returns
  \<open>true\<close> and the only thing it does to the outside is the store write; so does
  \<open>delete-item\<close>.
\<close>

theorem toggle_pin_sends_no_notification_counterexample:
  "toggle_pin 0 (manager_with [text_entry ''a'' False 1] ''a'' 50)
     = (True, (manager_with [text_entry ''a'' True 1] ''a'' 50)
                \<lparr>events := [StoreSetHistory [text_entry ''a'' True 1]]\<rparr>)
   \<and> events (snd (delete_item 0 (manager_with [text_entry ''a'' False 1] ''a'' 50)))
     = [StoreSetHistory []]
   \<and> windowAlive (manager_with [text_entry ''a'' False 1] ''a'' 50)"
  by code_simp

text \<open>
  C6, amended. \<open>addToHistory\<close> and \<open>clearHistory\<close> write the updated list to the store
  and then, when the window exists and is not destroyed, send \<open>clipboard-updated\<close>
  with that list: the store write comes first. \<open>toggle-pin\<close> and \<open>delete-item\<close> at an
  index in range return \<open>true\<close>, write the updated list to the store and send no
  notification; at an index out of range they return \<open>false\<close> and change nothing.
\<close>

theorem history_operations_store_then_notify:
  "events (addToHistory item s) =
     events s @ [StoreSetHistory (clipboardHistory (addToHistory item s))]
       @ (if windowAlive s then [ClipboardUpdated (clipboardHistory (addToHistory item s))] else [])
   \<and> st_clipboardHistory (the_store (addToHistory item s)) = clipboardHistory (addToHistory item s)
   \<and> events (clearHistory s) =
     events s @ [StoreSetHistory []] @ (if windowAlive s then [ClipboardUpdated []] else [])
   \<and> clipboardHistory (clearHistory s) = []
   \<and> st_clipboardHistory (the_store (clearHistory s)) = []
   \<and> (at_index (clipboardHistory s) index \<noteq> None \<longrightarrow>
        fst (toggle_pin index s) = True
      \<and> st_clipboardHistory (the_store (snd (toggle_pin index s)))
           = clipboardHistory (snd (toggle_pin index s))
      \<and> events (snd (toggle_pin index s))
           = events s @ [StoreSetHistory (clipboardHistory (snd (toggle_pin index s)))]
      \<and> fst (delete_item index s) = True
      \<and> st_clipboardHistory (the_store (snd (delete_item index s)))
           = clipboardHistory (snd (delete_item index s))
      \<and> events (snd (delete_item index s))
           = events s @ [StoreSetHistory (clipboardHistory (snd (delete_item index s)))])
   \<and> (at_index (clipboardHistory s) index = None \<longrightarrow>
        toggle_pin index s = (False, s) \<and> delete_item index s = (False, s))"
proof -
  have inr: "at_index (clipboardHistory s) index \<noteq> None \<longrightarrow>
        fst (toggle_pin index s) = True
      \<and> st_clipboardHistory (the_store (snd (toggle_pin index s)))
           = clipboardHistory (snd (toggle_pin index s))
      \<and> events (snd (toggle_pin index s))
           = events s @ [StoreSetHistory (clipboardHistory (snd (toggle_pin index s)))]
      \<and> fst (delete_item index s) = True
      \<and> st_clipboardHistory (the_store (snd (delete_item index s)))
           = clipboardHistory (snd (delete_item index s))
      \<and> events (snd (delete_item index s))
           = events s @ [StoreSetHistory (clipboardHistory (snd (delete_item index s)))]"
  proof
    assume "at_index (clipboardHistory s) index \<noteq> None"
    then obtain e where e: "at_index (clipboardHistory s) index = Some e" by auto
    from toggle_pin_in_range [OF e] delete_item_in_range [OF e]
    show "fst (toggle_pin index s) = True
      \<and> st_clipboardHistory (the_store (snd (toggle_pin index s)))
           = clipboardHistory (snd (toggle_pin index s))
      \<and> events (snd (toggle_pin index s))
           = events s @ [StoreSetHistory (clipboardHistory (snd (toggle_pin index s)))]
      \<and> fst (delete_item index s) = True
      \<and> st_clipboardHistory (the_store (snd (delete_item index s)))
           = clipboardHistory (snd (delete_item index s))
      \<and> events (snd (delete_item index s))
           = events s @ [StoreSetHistory (clipboardHistory (snd (delete_item index s)))]"
      by simp
  qed
  have outr: "at_index (clipboardHistory s) index = None \<longrightarrow>
        toggle_pin index s = (False, s) \<and> delete_item index s = (False, s)"
    by (simp add: toggle_pin_def delete_item_def)
  from events_addToHistory [of item s] stored_addToHistory [of item s] events_clearHistory [of s]
    inr outr
  show ?thesis by simp
qed

theorem history_operations_store_then_notify_witness:
  "events (addToHistory (text_entry ''b'' False 2) (manager_with [text_entry ''a'' False 1] ''a'' 50))
     = [StoreSetHistory [text_entry ''b'' False 2, text_entry ''a'' False 1],
        ClipboardUpdated [text_entry ''b'' False 2, text_entry ''a'' False 1]]
   \<and> events (snd (toggle_pin 0 (manager_with [text_entry ''a'' False 1] ''a'' 50)))
     = [StoreSetHistory [text_entry ''a'' True 1]]
   \<and> toggle_pin 7 (manager_with [text_entry ''a'' False 1] ''a'' 50)
     = (False, manager_with [text_entry ''a'' False 1] ''a'' 50)"
proof -
  let ?s = "manager_with [text_entry ''a'' False 1] ''a'' 50"
  have alive: "windowAlive ?s" by (simp add: windowAlive_def manager_with_def)
  have ev: "events ?s = []" by (simp add: manager_with_def)
  have h: "clipboardHistory (addToHistory (text_entry ''b'' False 2) ?s)
            = [text_entry ''b'' False 2, text_entry ''a'' False 1]"
    by code_simp
  have inr: "at_index (clipboardHistory ?s) 0 \<noteq> None"
    by (simp add: at_index_def manager_with_def)
  have outr: "at_index (clipboardHistory ?s) 7 = None"
    by (simp add: at_index_def manager_with_def)
  have tp: "clipboardHistory (snd (toggle_pin 0 ?s)) = [text_entry ''a'' True 1]"
    by code_simp
  show ?thesis
    using history_operations_store_then_notify [of "text_entry ''b'' False 2" ?s 0]
      history_operations_store_then_notify [of "text_entry ''b'' False 2" ?s 7]
      alive ev h inr outr tp
    by simp
qed

subsection \<open>C7: search\<close>

text \<open>
  C7, as stated, fails: the search compares what \<open>toLowerCase\<close> makes of the content
  with what it makes of the query, and \<open>toLowerCase\<close> depends on the letters around: a
  capital sigma at the end of a word becomes the final sigma. The content capital alpha,
  capital sigma contains the query capital sigma as it is, and the search for that
  query does not return the entry.
\<close>

theorem search_history_misses_entry_counterexample:
  "includes_str [0x0391, 0x03A3] [0x03A3]
   \<and> toLowerCase_greek [0x0391, 0x03A3] = [0x03B1, 0x03C2]
   \<and> toLowerCase_greek [0x03A3] = [0x03C3]
   \<and> search_history toLowerCase_greek [0x03A3]
        (manager_with [text_entry_of [0x0391, 0x03A3] False 1] [] 50) = []"
  by code_simp

text \<open>
  C7, amended. For every history and query, \<open>search-history\<close> returns the entries for
  which \<open>toLowerCase\<close> of the content contains \<open>toLowerCase\<close> of the query as a
  substring, in stored order (a \<open>filter\<close> of the stored list); the whole stored list for
  the empty query; and the empty list when no entry matches in that sense. This holds
  whatever function \<open>toLowerCase\<close> is.
\<close>

theorem search_history_substring_after_toLowerCase:
  "search_history toLowerCase query s = search_spec toLowerCase query (clipboardHistory s)
   \<and> search_history toLowerCase [] s = clipboardHistory s
   \<and> (query \<noteq> [] \<longrightarrow>
        search_history toLowerCase query s =
          filter (\<lambda>e. \<exists>before after. toLowerCase (content e) = before @ toLowerCase query @ after)
            (clipboardHistory s))
   \<and> (query \<noteq> [] \<and> (\<forall>e\<in>set (clipboardHistory s).
          \<not> contains_substring (toLowerCase (content e)) (toLowerCase query))
        \<longrightarrow> search_history toLowerCase query s = [])"
proof -
  have 1: "search_history toLowerCase query s = search_spec toLowerCase query (clipboardHistory s)"
    by (simp add: search_history_def search_spec_def includes_str_iff)
  have 2: "search_history toLowerCase [] s = clipboardHistory s"
    by (simp add: search_history_def)
  have 3: "query \<noteq> [] \<longrightarrow>
        search_history toLowerCase query s =
          filter (\<lambda>e. \<exists>before after. toLowerCase (content e) = before @ toLowerCase query @ after)
            (clipboardHistory s)"
    by (simp add: 1 search_spec_def contains_substring_def)
  have 4: "query \<noteq> [] \<and> (\<forall>e\<in>set (clipboardHistory s).
          \<not> contains_substring (toLowerCase (content e)) (toLowerCase query))
        \<longrightarrow> search_history toLowerCase query s = []"
    by (simp add: 1 search_spec_def)
  from 1 2 3 4 show ?thesis by blast
qed

theorem search_history_substring_after_toLowerCase_witness:
  "search_spec toLowerCase_greek [0x0391]
     [text_entry_of [0x0391, 0x03A3] False 2, text_entry_of [0x03C3] True 1]
   = [text_entry_of [0x0391, 0x03A3] False 2]
   \<and> search_spec toLowerCase_greek [0x03C2]
     [text_entry_of [0x0391, 0x03A3] False 2, text_entry_of [0x03C3] True 1]
   = [text_entry_of [0x0391, 0x03A3] False 2]
   \<and> search_spec toLowerCase_greek [0x20]
     [text_entry_of [0x0391, 0x03A3] False 2, text_entry_of [0x03C3] True 1]
   = []"
proof -
  let ?h = "[text_entry_of [0x0391, 0x03A3] False 2, text_entry_of [0x03C3] True 1]"
  have h: "clipboardHistory (manager_with ?h [] 50) = ?h"
    by (simp add: manager_with_def)
  have a: "search_history toLowerCase_greek [0x0391] (manager_with ?h [] 50)
             = [text_entry_of [0x0391, 0x03A3] False 2]"
    by code_simp
  have b: "search_history toLowerCase_greek [0x03C2] (manager_with ?h [] 50)
             = [text_entry_of [0x0391, 0x03A3] False 2]"
    by code_simp
  have c: "search_history toLowerCase_greek [0x20] (manager_with ?h [] 50) = []"
    by code_simp
  show ?thesis
    using search_history_substring_after_toLowerCase
        [of toLowerCase_greek "[0x0391]" "manager_with ?h [] 50"]
      search_history_substring_after_toLowerCase
        [of toLowerCase_greek "[0x03C2]" "manager_with ?h [] 50"]
      search_history_substring_after_toLowerCase
        [of toLowerCase_greek "[0x20]" "manager_with ?h [] 50"]
    unfolding h a b c by simp
qed

subsection \<open>C8: shellEscape\<close>

text \<open>
  C8. For every string \<open>s\<close>, \<open>shellEscape(s)\<close> is a quote, then \<open>s\<close> with every single
  quote replaced by the four characters quote-backslash-quote-quote, then a quote. Read
  back by the shell as a word, the result is exactly \<open>s\<close>: no character of the content
  is left outside the quoted literal. The commands of \<open>pasteItem\<close> that carry the text
  append this literal to a fixed prefix.
\<close>

theorem shellEscape_single_quoted_literal:
  "shellEscape (Some s) =
     [squote]
     @ concat (map (\<lambda>c. if c = squote then [squote, bslash, squote, squote] else [c]) s)
     @ [squote]
   \<and> sh_word False (shellEscape (Some s)) = Some s
   \<and> pasteCommands True (text_entry_of s p i) =
       [js ''wtype -M ctrl v -m ctrl'', js ''wtype --delay 1 '' @ shellEscape (Some s)]
   \<and> pasteCommands False (text_entry_of s p i) =
       [js ''xdotool key --clearmodifiers ctrl+v'',
        js ''xdotool type --clearmodifiers --delay 1 '' @ shellEscape (Some s),
        js ''xclip -selection clipboard -o | xdotool type --clearmodifiers --file -'']"
  by (simp add: replaceQuotes_concat [symmetric] sh_word_replaceQuotes pasteCommands_def
      text_entry_def text_entry_of_def js_def)

theorem shellEscape_single_quoted_literal_witness:
  "shellEscape (Some (js ''it's''))
     = [squote] @ js ''it'' @ [squote, bslash, squote, squote] @ js ''s'' @ [squote]
   \<and> sh_word False (shellEscape (Some (js ''it's''))) = Some (js ''it's'')"
  using shellEscape_single_quoted_literal [of "js ''it's''"]
  by (simp add: squote_def bslash_def js_def)

subsection \<open>C9: the length bound\<close>

text \<open>
  C9. After every call of \<open>addToHistory\<close> the whole history list, pinned entries
  included, has at most \<open>maxItems\<close> entries, for a bound \<open>maxItems\<close> that is not
  negative: the list is cut to its first \<open>maxItems\<close> entries whatever their pinned
  flags are, and the cut list is the one written to the store.
\<close>

theorem addToHistory_length_le_maxItems:
  assumes "0 \<le> st_maxItems (the_store s)"
  shows "int (length (clipboardHistory (addToHistory item s))) \<le> st_maxItems (the_store s)
       \<and> int (length (st_clipboardHistory (the_store (addToHistory item s))))
           \<le> st_maxItems (the_store s)"
  using assms by (simp add: history_addToHistory stored_addToHistory slice0_nonneg)

theorem addToHistory_length_le_maxItems_witness:
  "int (length (clipboardHistory
      (addToHistory (text_entry ''d'' True 3)
        (manager_with [text_entry ''c'' True 2, text_entry ''b'' True 1] ''c'' 2)))) \<le> 2"
proof -
  have h: "0 \<le> st_maxItems (the_store
      (manager_with [text_entry ''c'' True 2, text_entry ''b'' True 1] ''c'' 2))"
    by (simp add: manager_with_def)
  show ?thesis
    using addToHistory_length_le_maxItems [OF h, of "text_entry ''d'' True 3"]
    by (simp add: manager_with_def)
qed

subsection \<open>C10: the value of pasteItem\<close>




end
